theory Spec2Isabelle
  imports Main "HOL-Library.AList"
begin

section \<open>Data model of \<^verbatim>\<open>lab.py\<close>\<close>

text \<open>
  The exceptions the code can raise. \<^verbatim>\<open>IndexError\<close> comes from \<^verbatim>\<open>key[0]\<close> on an empty
  key, \<^verbatim>\<open>TypeError\<close> from \<^verbatim>\<open>_valid_key\<close>, from \<^verbatim>\<open>+\<close> between a string and a tuple
  and from \<^verbatim>\<open>range(None, 0, -1)\<close>.
\<close>

datatype error = TypeError | KeyError | IndexError

text \<open>
  The argument of \<^verbatim>\<open>Trie(key_type)\<close>: the Python type object \<^verbatim>\<open>str\<close> or \<^verbatim>\<open>tuple\<close>.
\<close>

datatype key_type = KStr | KTuple

text \<open>
  A Python key: a string or a tuple of elements of some type \<open>'e\<close>. The keys of a
  node's \<^verbatim>\<open>children\<close> dictionary are keys too: a string of one character in a string
  trie, a tuple of one element in a tuple trie.
\<close>

datatype 'e key = Str string | Tuple "'e list"

text \<open>
  A \<^verbatim>\<open>Trie\<close> object: \<^verbatim>\<open>value\<close> (Python's \<^verbatim>\<open>None\<close> is \<open>None\<close>), \<^verbatim>\<open>key_type\<close> and
  \<^verbatim>\<open>children\<close>, a dictionary in insertion order. Every node owns its children, no
  node is shared, so a mutation of a node is a functional update of the tree.
\<close>

datatype ('e, 'v) trie =
  Trie (val: "'v option") (key_type: key_type) (children: "('e key \<times> ('e, 'v) trie) list")

fun type_of :: "'e key \<Rightarrow> key_type" where
  "type_of (Str s) = KStr"
| "type_of (Tuple es) = KTuple"

fun key_len :: "'e key \<Rightarrow> nat" where
  "key_len (Str s) = length s"
| "key_len (Tuple es) = length es"

text \<open>\<^verbatim>\<open>key[1:]\<close>\<close>

fun key_tl :: "'e key \<Rightarrow> 'e key" where
  "key_tl (Str s) = Str (tl s)"
| "key_tl (Tuple es) = Tuple (tl es)"

text \<open>
  The units of a key, as \<^verbatim>\<open>for k in key\<close> of \<^verbatim>\<open>_find_trie\<close> produces them after
  \<^verbatim>\<open>if self.key_type == tuple: k = (k,)\<close>: one-character strings, or one-element
  tuples. The key has passed \<^verbatim>\<open>_valid_key\<close>, so its type is the trie's key type.
\<close>

fun units :: "'e key \<Rightarrow> 'e key list" where
  "units (Str s) = map (\<lambda>c. Str [c]) s"
| "units (Tuple es) = map (\<lambda>e. Tuple [e]) es"

text \<open>
  \<^verbatim>\<open>cur_key = key[0]\<close>, wrapped into a one-element tuple in a tuple trie; \<open>None\<close> is
  the \<^verbatim>\<open>IndexError\<close> of \<^verbatim>\<open>key[0]\<close> on an empty key.
\<close>

fun first_unit :: "'e key \<Rightarrow> 'e key option" where
  "first_unit (Str []) = None"
| "first_unit (Str (c # cs)) = Some (Str [c])"
| "first_unit (Tuple []) = None"
| "first_unit (Tuple (e # es)) = Some (Tuple [e])"

text \<open>Python's \<^verbatim>\<open>+\<close> on two keys: a string and a tuple do not concatenate.\<close>

fun key_add :: "'e key \<Rightarrow> 'e key \<Rightarrow> error + 'e key" where
  "key_add (Str a) (Str b) = Inr (Str (a @ b))"
| "key_add (Tuple a) (Tuple b) = Inr (Tuple (a @ b))"
| "key_add (Str a) (Tuple b) = Inl TypeError"
| "key_add (Tuple a) (Str b) = Inl TypeError"

section \<open>The class \<^verbatim>\<open>Trie\<close>\<close>

text \<open>\<^verbatim>\<open>_valid_key\<close>: \<open>True\<close> when no \<^verbatim>\<open>TypeError\<close> is raised.\<close>

definition valid_key :: "('e, 'v) trie \<Rightarrow> 'e key \<Rightarrow> bool" where
  "valid_key t key = (type_of key = key_type t)"

text \<open>The loop of \<^verbatim>\<open>_find_trie\<close> over the units of the key.\<close>

fun walk :: "('e, 'v) trie \<Rightarrow> 'e key list \<Rightarrow> error + ('e, 'v) trie" where
  "walk cur_trie [] = Inr cur_trie"
| "walk cur_trie (k # ks) =
     (case map_of (children cur_trie) k of
        Some c \<Rightarrow> walk c ks
      | None \<Rightarrow> Inl KeyError)"

definition find_trie :: "('e, 'v) trie \<Rightarrow> 'e key \<Rightarrow> error + ('e, 'v) trie" where
  "find_trie t key = (if \<not> valid_key t key then Inl TypeError else walk t (units key))"

text \<open>
  The \<^verbatim>\<open>children\<close> dictionary after the statement
  \<^verbatim>\<open>if not cur_key in self.children: ... self.children[cur_key] = cur\<close>
  of \<^verbatim>\<open>__setitem__\<close>: a missing key gets a new empty node, at the end of the dictionary.
\<close>

definition with_child :: "('e, 'v) trie \<Rightarrow> 'e key \<Rightarrow> ('e key \<times> ('e, 'v) trie) list" where
  "with_child t cur_key =
     (if map_of (children t) cur_key = None
      then children t @ [(cur_key, Trie None (key_type t) [])]
      else children t)"

text \<open>
  \<^verbatim>\<open>__setitem__\<close>. The result is the exception raised, if any, and the trie as the call
  leaves it: a node created before a recursive call fails would stay in the trie.
\<close>

function setitem :: "('e, 'v) trie \<Rightarrow> 'e key \<Rightarrow> 'v option \<Rightarrow> error option \<times> ('e, 'v) trie" where
  "setitem t key v =
     (if \<not> valid_key t key then (Some TypeError, t)
      else case first_unit key of
        None \<Rightarrow> (Some IndexError, t)
      | Some cur_key \<Rightarrow>
          let ch = with_child t cur_key;
              cur = the (map_of ch cur_key)
          in if key_len key = 1
             then (None, Trie (val t) (key_type t)
                          (AList.update cur_key (Trie v (key_type cur) (children cur)) ch))
             else (case setitem cur (key_tl key) v of
                     (r, cur') \<Rightarrow>
                       (r, Trie (val t) (key_type t) (AList.update cur_key cur' ch))))"
  by pat_completeness auto
termination
proof (relation "measure (\<lambda>(t, key, v). key_len key)")
  show "wf (measure (\<lambda>(t, key, v). key_len key))" by simp
next
  fix t :: "('e, 'v) trie" and key :: "'e key" and v :: "'v option" and x2 xa xb
  assume "first_unit key = Some x2"
  then have "key_len (key_tl key) < key_len key"
    by (cases key rule: first_unit.cases) auto
  then show "((xb, key_tl key, v), (t, key, v)) \<in> measure (\<lambda>(t, key, v). key_len key)"
    by simp
qed

declare setitem.simps [simp del]

text \<open>\<^verbatim>\<open>__getitem__\<close>\<close>

definition getitem :: "('e, 'v) trie \<Rightarrow> 'e key \<Rightarrow> error + 'v option" where
  "getitem t key = (case find_trie t key of Inl e \<Rightarrow> Inl e | Inr n \<Rightarrow> Inr (val n))"

text \<open>
  The assignment \<^verbatim>\<open>t.value = None\<close> of \<^verbatim>\<open>__delitem__\<close> writes to the node that
  \<^verbatim>\<open>_find_trie\<close> returned, which is the node at the end of the key's path.
\<close>

fun assign_value :: "('e, 'v) trie \<Rightarrow> 'e key list \<Rightarrow> 'v option \<Rightarrow> ('e, 'v) trie" where
  "assign_value t [] v = Trie v (key_type t) (children t)"
| "assign_value t (k # ks) v =
     (case map_of (children t) k of
        None \<Rightarrow> t
      | Some c \<Rightarrow> Trie (val t) (key_type t) (AList.update k (assign_value c ks v) (children t)))"

text \<open>\<^verbatim>\<open>__delitem__\<close>: the exception raised, if any, and the trie afterwards.\<close>

definition delitem :: "('e, 'v) trie \<Rightarrow> 'e key \<Rightarrow> error option \<times> ('e, 'v) trie" where
  "delitem t key =
     (case find_trie t key of
        Inl e \<Rightarrow> (Some e, t)
      | Inr n \<Rightarrow>
          if val n = None then (Some KeyError, t)
          else (None, assign_value t (units key) None))"

text \<open>\<^verbatim>\<open>__contains__\<close>: a \<^verbatim>\<open>KeyError\<close> is caught, a \<^verbatim>\<open>TypeError\<close> is not.\<close>

definition contains :: "('e, 'v) trie \<Rightarrow> 'e key \<Rightarrow> error + bool" where
  "contains t key =
     (case find_trie t key of
        Inr n \<Rightarrow> Inr (val n \<noteq> None)
      | Inl KeyError \<Rightarrow> Inr False
      | Inl e \<Rightarrow> Inl e)"

text \<open>
  \<^verbatim>\<open>recursive_generator\<close>, with the pairs it yields as a list in the order of the
  yields. The \<^verbatim>\<open>TypeError\<close> of \<^verbatim>\<open>key+k\<close> ends the generator; the callers in this file
  consume the whole generator, so they end with that exception.
\<close>

fun recursive_generator :: "'e key \<Rightarrow> ('e, 'v) trie \<Rightarrow> error + ('e key \<times> 'v) list"
  and generate_children :: "'e key \<Rightarrow> ('e key \<times> ('e, 'v) trie) list \<Rightarrow> error + ('e key \<times> 'v) list"
  where
  "recursive_generator key (Trie vl kt ch) =
     (case generate_children key ch of
        Inl e \<Rightarrow> Inl e
      | Inr rest \<Rightarrow> Inr ((case vl of None \<Rightarrow> [] | Some v \<Rightarrow> [(key, v)]) @ rest))"
| "generate_children key [] = Inr []"
| "generate_children key ((k, t) # kts) =
     (case key_add key k of
        Inl e \<Rightarrow> Inl e
      | Inr key' \<Rightarrow>
          (case recursive_generator key' t of
             Inl e \<Rightarrow> Inl e
           | Inr xs \<Rightarrow>
               (case generate_children key kts of
                  Inl e \<Rightarrow> Inl e
                | Inr ys \<Rightarrow> Inr (xs @ ys))))"

text \<open>\<^verbatim>\<open>__iter__\<close>\<close>

definition iter :: "('e, 'v) trie \<Rightarrow> error + ('e key \<times> 'v) list" where
  "iter t = (if key_type t = KTuple then recursive_generator (Tuple []) t
             else recursive_generator (Str []) t)"

text \<open>
  The tries that \<^verbatim>\<open>Trie(key_type)\<close> and \<^verbatim>\<open>__setitem__\<close> build: the keys of a
  \<^verbatim>\<open>children\<close> dictionary are distinct units of the trie's kind, and every node has
  the key type of the root.
\<close>

definition unit_key :: "key_type \<Rightarrow> 'e key \<Rightarrow> bool" where
  "unit_key kt k = (type_of k = kt \<and> key_len k = 1)"

fun well_formed :: "('e, 'v) trie \<Rightarrow> bool" where
  "well_formed (Trie vl kt ch) =
     (distinct (map fst ch) \<and>
      (\<forall>p \<in> set ch. unit_key kt (fst p) \<and> key_type (snd p) = kt \<and> well_formed (snd p)))"

declare well_formed.simps [simp del]

text \<open>
  The stored entries below a node, as a set: the keys of the given type whose units are
  \<open>pre\<close> followed by a path from \<open>t\<close> to a node that holds a value, with that value.
\<close>

definition entries_from :: "'e key list \<Rightarrow> key_type \<Rightarrow> ('e, 'v) trie \<Rightarrow> ('e key \<times> 'v) set" where
  "entries_from pre kt t =
     {(k', v). type_of k' = kt \<and> (\<exists>us n. units k' = pre @ us \<and> walk t us = Inr n \<and> val n = Some v)}"

text \<open>\<^verbatim>\<open>Trie(key_type)\<close>, the constructor \<^verbatim>\<open>__init__\<close>.\<close>

definition new_trie :: "key_type \<Rightarrow> ('e, 'v) trie" where
  "new_trie kt = Trie None kt []"


section \<open>Building the tries\<close>

text \<open>
  \<^verbatim>\<open>s.split(" ")\<close>: the pieces between single spaces, empty pieces included; the result
  is never empty.
\<close>

fun split_on :: "char \<Rightarrow> string \<Rightarrow> string list" where
  "split_on c [] = [[]]"
| "split_on c (x # xs) =
     (if x = c then [] # split_on c xs
      else (case split_on c xs of [] \<Rightarrow> [[x]] | w # ws \<Rightarrow> (x # w) # ws))"

text \<open>
  The body of the loops of \<^verbatim>\<open>make_word_trie\<close> and \<^verbatim>\<open>make_phrase_trie\<close>:
  \<^verbatim>\<open>if w in trie: trie[w] += 1 else: trie[w] = 1\<close>. An exception ends the function, so
  the result is the exception or the trie.
\<close>

definition count_key :: "('e, int) trie \<Rightarrow> 'e key \<Rightarrow> error + ('e, int) trie" where
  "count_key t w =
     (case contains t w of
        Inl e \<Rightarrow> Inl e
      | Inr True \<Rightarrow>
          (case getitem t w of
             Inl e \<Rightarrow> Inl e
           | Inr v \<Rightarrow> (case setitem t w (Some (the v + 1)) of
                         (Some e, _) \<Rightarrow> Inl e | (None, t') \<Rightarrow> Inr t'))
      | Inr False \<Rightarrow>
          (case setitem t w (Some 1) of (Some e, _) \<Rightarrow> Inl e | (None, t') \<Rightarrow> Inr t'))"

fun count_keys :: "('e, int) trie \<Rightarrow> 'e key list \<Rightarrow> error + ('e, int) trie" where
  "count_keys t [] = Inr t"
| "count_keys t (w # ws) = (case count_key t w of Inl e \<Rightarrow> Inl e | Inr t' \<Rightarrow> count_keys t' ws)"

text \<open>
  \<^verbatim>\<open>make_word_trie\<close>. The function \<^verbatim>\<open>tokenize_sentences\<close> of the module
  \<^verbatim>\<open>text_tokenize\<close> is not part of the sources; it is a parameter here. It returns the
  sentences of the text, each a string of words separated by single spaces.
\<close>

definition make_word_trie :: "(string \<Rightarrow> string list) \<Rightarrow> string \<Rightarrow> error + (string, int) trie" where
  "make_word_trie tokenize_sentences text =
     count_keys (new_trie KStr)
       (concat (map (\<lambda>s. map Str (split_on CHR '' '' s)) (tokenize_sentences text)))"

text \<open>\<^verbatim>\<open>get_sentence_tuple\<close>\<close>

definition get_sentence_tuple :: "string \<Rightarrow> string key" where
  "get_sentence_tuple sentence = Tuple (split_on CHR '' '' sentence)"

text \<open>\<^verbatim>\<open>make_phrase_trie\<close>, with \<^verbatim>\<open>tokenize_sentences\<close> as a parameter again.\<close>

definition make_phrase_trie :: "(string \<Rightarrow> string list) \<Rightarrow> string \<Rightarrow> error + (string, int) trie" where
  "make_phrase_trie tokenize_sentences text =
     count_keys (new_trie KTuple) (map get_sentence_tuple (tokenize_sentences text))"

section \<open>Autocomplete\<close>

text \<open>
  A Python \<^verbatim>\<open>set\<close> is a list without duplicates here. The order in which Python
  iterates over a set is not specified; every function that iterates over one takes the
  order as a parameter \<open>set_iter\<close>, a rearrangement of the list.
\<close>

definition set_add :: "'a \<Rightarrow> 'a list \<Rightarrow> 'a list" where
  "set_add x xs = (if x \<in> set xs then xs else xs @ [x])"

definition set_union :: "'a list \<Rightarrow> 'a list \<Rightarrow> 'a list" where
  "set_union xs ys = xs @ filter (\<lambda>y. y \<notin> set xs) ys"

text \<open>What a parameter \<open>set_iter\<close> has to satisfy: it only rearranges.\<close>

definition iteration_order :: "('a list \<Rightarrow> 'a list) \<Rightarrow> bool" where
  "iteration_order set_iter = (\<forall>xs. set (set_iter xs) = set xs \<and> length (set_iter xs) = length xs)"

text \<open>
  The first loop of \<^verbatim>\<open>autocomplete\<close> (and of \<^verbatim>\<open>autocorrect\<close>), over the pairs
  \<^verbatim>\<open>(word, count)\<close>: the state is \<^verbatim>\<open>freq_map\<close> and \<^verbatim>\<open>max_freq\<close>. \<^verbatim>\<open>not max_freq\<close> holds
  for \<^verbatim>\<open>None\<close> and for \<^verbatim>\<open>0\<close>.
\<close>

type_synonym 'e freq_state = "(int \<rightharpoonup> 'e key list) \<times> int option"

definition add_freq :: "'e freq_state \<Rightarrow> 'e key \<times> int \<Rightarrow> 'e freq_state" where
  "add_freq st e =
     (case st of (freq_map, max_freq) \<Rightarrow>
        (case e of (w, count) \<Rightarrow>
           (freq_map(count \<mapsto> (case freq_map count of Some b \<Rightarrow> set_add w b | None \<Rightarrow> [w])),
            if max_freq = None \<or> max_freq = Some 0 \<or> count > the max_freq
            then Some count else max_freq)))"

definition collect_freq :: "('e key \<times> int) list \<Rightarrow> 'e freq_state" where
  "collect_freq es = foldl add_freq (Map.empty, None) es"

text \<open>
  The inner loop \<^verbatim>\<open>for w in freq_map[i]\<close> with its \<^verbatim>\<open>break\<close>; \<open>f\<close> is what is appended,
  \<^verbatim>\<open>prefix+w\<close> in \<^verbatim>\<open>autocomplete\<close> and \<^verbatim>\<open>w\<close> in \<^verbatim>\<open>autocorrect\<close>.
\<close>

fun emit_bucket ::
  "('e key \<Rightarrow> error + 'e key) \<Rightarrow> int option \<Rightarrow> 'e key list \<Rightarrow> 'e key list \<Rightarrow> error + 'e key list" where
  "emit_bucket f max_count element_list [] = Inr element_list"
| "emit_bucket f max_count element_list (w # ws) =
     (if max_count = None \<or> int (length element_list) < the max_count
      then (case f w of
              Inl e \<Rightarrow> Inl e
            | Inr x \<Rightarrow> emit_bucket f max_count (element_list @ [x]) ws)
      else Inr element_list)"

text \<open>The outer loop \<^verbatim>\<open>for i in range(max_freq, 0, -1)\<close>, over the list of the \<open>i\<close>.\<close>

fun emit_all ::
  "('e key \<Rightarrow> error + 'e key) \<Rightarrow> ('e key list \<Rightarrow> 'e key list) \<Rightarrow> int option \<Rightarrow>
   (int \<rightharpoonup> 'e key list) \<Rightarrow> 'e key list \<Rightarrow> int list \<Rightarrow> error + 'e key list" where
  "emit_all f set_iter max_count freq_map element_list [] = Inr element_list"
| "emit_all f set_iter max_count freq_map element_list (i # is) =
     (case freq_map i of
        None \<Rightarrow> emit_all f set_iter max_count freq_map element_list is
      | Some b \<Rightarrow>
          (case emit_bucket f max_count element_list (set_iter b) of
             Inl e \<Rightarrow> Inl e
           | Inr element_list' \<Rightarrow> emit_all f set_iter max_count freq_map element_list' is))"

text \<open>
  Both loops together: \<^verbatim>\<open>range(max_freq, 0, -1)\<close> raises \<^verbatim>\<open>TypeError\<close> when \<^verbatim>\<open>max_freq\<close>
  is still \<^verbatim>\<open>None\<close>, and is \<open>max_freq, \<dots>, 1\<close> otherwise.
\<close>

definition emit_by_frequency ::
  "('e key \<Rightarrow> error + 'e key) \<Rightarrow> ('e key list \<Rightarrow> 'e key list) \<Rightarrow> int option \<Rightarrow>
   'e freq_state \<Rightarrow> 'e key list \<Rightarrow> error + 'e key list" where
  "emit_by_frequency f set_iter max_count st element_list =
     (case st of (freq_map, max_freq) \<Rightarrow>
        (case max_freq of
           None \<Rightarrow> Inl TypeError
         | Some m \<Rightarrow> emit_all f set_iter max_count freq_map element_list (rev [1..m])))"

text \<open>\<^verbatim>\<open>autocomplete\<close>; \<^verbatim>\<open>except KeyError\<close> covers the whole body.\<close>

definition autocomplete ::
  "('e key list \<Rightarrow> 'e key list) \<Rightarrow> ('e, int) trie \<Rightarrow> 'e key \<Rightarrow> int option \<Rightarrow> error + 'e key list" where
  "autocomplete set_iter trie prefix max_count =
     (case (case find_trie trie prefix of
              Inl e \<Rightarrow> Inl e
            | Inr t \<Rightarrow>
                (case iter t of
                   Inl e \<Rightarrow> Inl e
                 | Inr es \<Rightarrow>
                     emit_by_frequency (key_add prefix) set_iter max_count (collect_freq es) []))
      of Inl KeyError \<Rightarrow> Inr []
       | r \<Rightarrow> r)"

section \<open>Autocorrect\<close>

definition letters :: string where
  "letters = ''abcdefghijklmnopqrstuvwxyz''"

text \<open>
  The four generators, on a string, with what they yield as a list. On a tuple the
  first \<^verbatim>\<open>prefix[:i] + l\<close> of \<^verbatim>\<open>get_single_insertions\<close> raises \<^verbatim>\<open>TypeError\<close>.
\<close>

definition get_single_insertions :: "string \<Rightarrow> string list" where
  "get_single_insertions prefix =
     concat (map (\<lambda>i. map (\<lambda>l. take i prefix @ [l] @ drop i prefix) letters)
                 [0..<length prefix + 1])"

definition get_single_deletions :: "string \<Rightarrow> string list" where
  "get_single_deletions prefix =
     map (\<lambda>i. take i prefix @ drop (i + 1) prefix) [0..<length prefix]"

definition get_single_replacement :: "string \<Rightarrow> string list" where
  "get_single_replacement prefix =
     concat (map (\<lambda>i. map (\<lambda>l. take i prefix @ [l] @ drop (i + 1) prefix) letters)
                 [0..<length prefix])"

text \<open>\<^verbatim>\<open>prefix[i+1:j]\<close> is \<open>take (j - (i + 1)) (drop (i + 1) prefix)\<close>.\<close>

definition get_two_char_transpose :: "string \<Rightarrow> string list" where
  "get_two_char_transpose prefix =
     concat (map (\<lambda>i. map (\<lambda>j. take i prefix @ [prefix ! j] @
                                 take (j - (i + 1)) (drop (i + 1) prefix) @
                                 [prefix ! i] @ drop (j + 1) prefix)
                           [i + 1..<length prefix])
                 [0..<length prefix - 1])"

fun get_edits :: "'e key \<Rightarrow> error + 'e key list" where
  "get_edits (Str prefix) =
     Inr (map Str (get_single_insertions prefix @ get_single_deletions prefix @
                   get_single_replacement prefix @ get_two_char_transpose prefix))"
| "get_edits (Tuple prefix) = Inl TypeError"

text \<open>
  The loop \<^verbatim>\<open>for word in get_edits(prefix)\<close> of \<^verbatim>\<open>autocorrect\<close>: the words that are not in
  \<^verbatim>\<open>used_words\<close> and are in the trie, each with \<^verbatim>\<open>trie[word]\<close>, in the order of the loop.
\<close>

fun valid_edits ::
  "('e, int) trie \<Rightarrow> 'e key list \<Rightarrow> 'e key list \<Rightarrow> error + ('e key \<times> int) list" where
  "valid_edits trie used_words [] = Inr []"
| "valid_edits trie used_words (word # ws) =
     (if word \<in> set used_words then valid_edits trie used_words ws
      else (case contains trie word of
              Inl e \<Rightarrow> Inl e
            | Inr False \<Rightarrow> valid_edits trie used_words ws
            | Inr True \<Rightarrow>
                (case getitem trie word of
                   Inl e \<Rightarrow> Inl e
                 | Inr v \<Rightarrow>
                     (case valid_edits trie used_words ws of
                        Inl e \<Rightarrow> Inl e
                      | Inr es \<Rightarrow> Inr ((word, the v) # es)))))"

text \<open>\<^verbatim>\<open>autocorrect\<close>\<close>

definition autocorrect ::
  "('e key list \<Rightarrow> 'e key list) \<Rightarrow> ('e, int) trie \<Rightarrow> 'e key \<Rightarrow> int option \<Rightarrow> error + 'e key list" where
  "autocorrect set_iter trie prefix max_count =
     (case autocomplete set_iter trie prefix max_count of
        Inl e \<Rightarrow> Inl e
      | Inr element_list \<Rightarrow>
          if max_count = None \<or> int (length element_list) < the max_count
          then (case get_edits prefix of
                  Inl e \<Rightarrow> Inl e
                | Inr words \<Rightarrow>
                    (case valid_edits trie element_list words of
                       Inl e \<Rightarrow> Inl e
                     | Inr es \<Rightarrow>
                         emit_by_frequency Inr set_iter max_count (collect_freq es) element_list))
          else Inr element_list)"

text \<open>
  The edit-distance-1 neighbourhood in the words of the specification: every insertion
  of a lowercase letter at every position, every deletion of one character, every
  substitution of one character by a lowercase letter, and every transposition of two
  adjacent characters.
\<close>

definition spec_neighbourhood :: "string \<Rightarrow> string list" where
  "spec_neighbourhood prefix =
     concat (map (\<lambda>i. map (\<lambda>l. take i prefix @ [l] @ drop i prefix) letters)
                 [0..<length prefix + 1]) @
     map (\<lambda>i. take i prefix @ drop (i + 1) prefix) [0..<length prefix] @
     concat (map (\<lambda>i. map (\<lambda>l. take i prefix @ [l] @ drop (i + 1) prefix) letters)
                 [0..<length prefix]) @
     map (\<lambda>i. take i prefix @ [prefix ! (i + 1), prefix ! i] @ drop (i + 2) prefix)
         [0..<length prefix - 1]"

text \<open>No node of the subtree holds a value.\<close>

fun valueless :: "('e, 'v) trie \<Rightarrow> bool" where
  "valueless (Trie vl kt ch) = (vl = None \<and> (\<forall>p \<in> set ch. valueless (snd p)))"

section \<open>Properties of the trie operations\<close>


lemma units_tl: "units (key_tl k) = tl (units k)"
  by (cases k) (auto simp: map_tl)

lemma type_of_tl: "type_of (key_tl k) = type_of k"
  by (cases k) auto

lemma first_unit_units: "first_unit k = (case units k of [] \<Rightarrow> None | u # _ \<Rightarrow> Some u)"
  by (cases k rule: first_unit.cases) auto

lemma key_len_units: "key_len k = length (units k)"
  by (cases k) auto

lemma key_len_tl: "key_len (key_tl k) = key_len k - 1"
  by (cases k) auto

lemma first_unit_None: "first_unit k = None \<longleftrightarrow> key_len k = 0"
  by (cases k rule: first_unit.cases) auto

lemma first_unit_is_unit: "first_unit k = Some u \<Longrightarrow> unit_key (type_of k) u"
  by (cases k rule: first_unit.cases) (auto simp: unit_key_def)

lemma unit_key_units: "unit_key kt k \<Longrightarrow> units k = [k]"
  by (cases k) (auto simp: length_Suc_conv unit_key_def)

lemma setitem_type: "key_type (snd (setitem t k v)) = key_type t"
  by (subst setitem.simps) (auto split: option.splits prod.splits simp: Let_def)

lemma well_formed_iff:
  "well_formed t \<longleftrightarrow> distinct (map fst (children t)) \<and>
     (\<forall>p \<in> set (children t). unit_key (key_type t) (fst p) \<and> key_type (snd p) = key_type t \<and> well_formed (snd p))"
  by (cases t) (simp add: well_formed.simps)

lemma well_formed_child:
  "well_formed t \<Longrightarrow> map_of (children t) k = Some c \<Longrightarrow>
     well_formed c \<and> key_type c = key_type t \<and> unit_key (key_type t) k"
  by (subst (asm) well_formed_iff) (auto dest!: map_of_SomeD)

lemma set_update_subset: "set (AList.update k v al) \<subseteq> insert (k, v) (set al)"
  by (induct al) auto

lemma well_formed_update:
  assumes "well_formed t" "unit_key (key_type t) k" "key_type c = key_type t" "well_formed c"
  shows "well_formed (Trie vl (key_type t) (AList.update k c (children t)))"
proof -
  have "p = (k, c) \<or> p \<in> set (children t)" if "p \<in> set (AList.update k c (children t))" for p
    using that set_update_subset[of k c "children t"] by auto
  then show ?thesis
    using assms by (subst (asm) well_formed_iff, subst well_formed_iff) (fastforce simp: distinct_update)
qed

lemma setitem_unfold:
  "valid_key t key \<Longrightarrow> first_unit key = Some u \<Longrightarrow>
   setitem t key v =
     (let ch = with_child t u; cur = the (map_of ch u)
      in if key_len key = 1
         then (None, Trie (val t) (key_type t)
                 (AList.update u (Trie v (key_type cur) (children cur)) ch))
         else (fst (setitem cur (key_tl key) v),
               Trie (val t) (key_type t) (AList.update u (snd (setitem cur (key_tl key) v)) ch)))"
  by (subst setitem.simps) (simp add: Let_def split: prod.splits)

lemma with_child_well_formed:
  assumes "well_formed t" "unit_key (key_type t) u"
  shows "well_formed (Trie vl (key_type t) (with_child t u))"
  using assms
  apply (subst (asm) well_formed_iff)
  apply (subst well_formed_iff)
  apply (auto simp: with_child_def map_of_eq_None_iff well_formed.simps)
  done

lemma with_child_lookup: "\<exists>c. map_of (with_child t u) u = Some c"
  by (auto simp: with_child_def map_add_def split: option.splits)

lemma setitem_well_formed: "well_formed t \<Longrightarrow> well_formed (snd (setitem t k v))"
proof (induction t k v rule: setitem.induct)
  case (1 t key v)
  show ?case
  proof (cases "valid_key t key")
    case False
    then show ?thesis using "1.prems" by (subst setitem.simps) simp
  next
    case True
    show ?thesis
    proof (cases "first_unit key")
      case None
      then show ?thesis using "1.prems" True by (subst setitem.simps) simp
    next
      case (Some u)
      define ch where "ch = with_child t u"
      define t0 where "t0 = Trie (val t) (key_type t) ch"
      obtain cur where cur: "map_of ch u = Some cur"
        using with_child_lookup[of t u] by (auto simp: ch_def)
      have u: "unit_key (key_type t) u"
        using first_unit_is_unit[OF Some] True by (simp add: valid_key_def)
      have wf0: "well_formed t0"
        unfolding t0_def ch_def using with_child_well_formed[OF "1.prems" u] .
      have t0: "children t0 = ch" "key_type t0 = key_type t"
        by (simp_all add: t0_def)
      have c: "well_formed cur" "key_type cur = key_type t"
        using well_formed_child[OF wf0, of u cur] cur t0 by auto
      show ?thesis
      proof (cases "key_len key = 1")
        case True
        have "well_formed (Trie v (key_type cur) (children cur))"
          using c(1) by (subst (asm) well_formed_iff, subst well_formed_iff) simp
        then have "well_formed (Trie (val t) (key_type t0) (AList.update u (Trie v (key_type cur) (children cur)) (children t0)))"
          using well_formed_update[OF wf0, of u] u c t0 by simp
        then show ?thesis
          using \<open>valid_key t key\<close> Some True cur
          by (simp add: setitem_unfold Let_def ch_def[symmetric] t0)
      next
        case False
        have IH: "well_formed (snd (setitem cur (key_tl key) v))"
          using "1.IH"[OF _ Some _ _ False, of ch cur] \<open>valid_key t key\<close> cur c
          by (simp add: ch_def)
        have "well_formed (Trie (val t) (key_type t0) (AList.update u (snd (setitem cur (key_tl key) v)) (children t0)))"
          using well_formed_update[OF wf0, of u] u c t0 IH by (simp add: setitem_type)
        then show ?thesis
          using \<open>valid_key t key\<close> Some False cur
          by (simp add: setitem_unfold Let_def ch_def[symmetric] t0)
      qed
    qed
  qed
qed

lemma setitem_succeeds:
  "well_formed t \<Longrightarrow> valid_key t k \<Longrightarrow> key_len k \<noteq> 0 \<Longrightarrow> fst (setitem t k v) = None"
proof (induction t k v rule: setitem.induct)
  case (1 t key v)
  obtain u where Some: "first_unit key = Some u"
    using "1.prems"(3) by (cases key rule: first_unit.cases) auto
  define ch where "ch = with_child t u"
  obtain cur where cur: "map_of ch u = Some cur"
    using with_child_lookup[of t u] by (auto simp: ch_def)
  have u: "unit_key (key_type t) u"
    using first_unit_is_unit[OF Some] "1.prems"(2) by (simp add: valid_key_def)
  have wf0: "well_formed (Trie (val t) (key_type t) ch)"
    unfolding ch_def using with_child_well_formed[OF "1.prems"(1) u] .
  have c: "well_formed cur" "key_type cur = key_type t"
    using well_formed_child[OF wf0, of u cur] cur by auto
  show ?case
  proof (cases "key_len key = 1")
    case True
    then show ?thesis using "1.prems"(2) Some by (simp add: setitem_unfold Let_def)
  next
    case False
    then have "key_len (key_tl key) \<noteq> 0"
      using "1.prems"(3) by (simp add: key_len_tl)
    moreover have "valid_key cur (key_tl key)"
      using c "1.prems"(2) by (simp add: valid_key_def type_of_tl)
    ultimately have "fst (setitem cur (key_tl key) v) = None"
      using "1.IH"[OF _ Some _ _ False, of ch cur] "1.prems"(2) cur c by (simp add: ch_def)
    then show ?thesis
      using "1.prems"(2) Some False cur by (simp add: setitem_unfold Let_def ch_def[symmetric])
  qed
qed

lemma setitem_atomic: "fst (setitem t k v) = Some e \<Longrightarrow> snd (setitem t k v) = t"
proof (induction t k v rule: setitem.induct)
  case (1 t key v)
  show ?case
  proof (cases "valid_key t key")
    case False
    then show ?thesis by (subst setitem.simps) simp
  next
    case True
    show ?thesis
    proof (cases "first_unit key")
      case None
      then show ?thesis using True by (subst setitem.simps) simp
    next
      case (Some u)
      define ch where "ch = with_child t u"
      obtain cur where cur: "map_of ch u = Some cur"
        using with_child_lookup[of t u] by (auto simp: ch_def)
      have len: "key_len key \<noteq> 1"
        using "1.prems" True Some by (auto simp: setitem_unfold Let_def)
      then have fails: "fst (setitem cur (key_tl key) v) = Some e"
        using "1.prems" True Some cur by (simp add: setitem_unfold Let_def ch_def[symmetric])
      then have same: "snd (setitem cur (key_tl key) v) = cur"
        using "1.IH"[OF _ Some _ _ len, of ch cur] True cur by (simp add: ch_def)
      have old: "map_of (children t) u \<noteq> None"
      proof
        assume new: "map_of (children t) u = None"
        then have "cur = Trie None (key_type t) []"
          using cur by (simp add: ch_def with_child_def map_add_def)
        then have "well_formed cur" "valid_key cur (key_tl key)"
          using True by (simp_all add: well_formed.simps valid_key_def type_of_tl)
        moreover have "key_len (key_tl key) \<noteq> 0"
          using len Some first_unit_None[of key] by (simp add: key_len_tl)
        ultimately have "fst (setitem cur (key_tl key) v) = None"
          by (rule setitem_succeeds)
        with fails show False by simp
      qed
      then have "ch = children t" by (simp add: ch_def with_child_def)
      then have "AList.update u cur ch = children t"
        using cur by (simp add: update_triv)
      then show ?thesis
        using True Some len cur same by (simp add: setitem_unfold Let_def ch_def[symmetric])
    qed
  qed
qed

lemma setitem_errors: "fst (setitem t k v) = Some e \<Longrightarrow> e = TypeError \<or> e = IndexError"
proof (induction t k v rule: setitem.induct)
  case (1 t key v)
  show ?case
  proof (cases "valid_key t key")
    case False
    then show ?thesis using "1.prems" by (subst (asm) setitem.simps) simp
  next
    case True
    show ?thesis
    proof (cases "first_unit key")
      case None
      then show ?thesis using True "1.prems" by (subst (asm) setitem.simps) simp
    next
      case (Some u)
      define ch where "ch = with_child t u"
      obtain cur where cur: "map_of ch u = Some cur"
        using with_child_lookup[of t u] by (auto simp: ch_def)
      have len: "key_len key \<noteq> 1"
        using "1.prems" True Some by (auto simp: setitem_unfold Let_def)
      then have fails: "fst (setitem cur (key_tl key) v) = Some e"
        using "1.prems" True Some cur by (simp add: setitem_unfold Let_def ch_def[symmetric])
      then show ?thesis
        using "1.IH"[OF _ Some _ _ len, of ch cur] True cur by (simp add: ch_def)
    qed
  qed
qed


lemma set_walk:
  "setitem t k v = (None, t') \<Longrightarrow> \<exists>n. walk t' (units k) = Inr n \<and> val n = v"
proof (induction t k v arbitrary: t' rule: setitem.induct)
  case (1 t key v)
  show ?case
    using "1.prems" "1.IH"
    apply (subst (asm) setitem.simps)
    apply (auto split: option.splits prod.splits if_splits simp: Let_def first_unit_units key_len_units units_tl update_conv' split: list.splits)
    done
qed

lemma setitem_valid: "fst (setitem t k v) = None \<Longrightarrow> valid_key t k"
  by (subst (asm) setitem.simps) (auto split: if_splits)

lemma find_trie_after_set:
  "setitem t k v = (None, t') \<Longrightarrow> \<exists>n. find_trie t' k = Inr n \<and> val n = v"
  using set_walk[of t k v t'] setitem_type[of t k v] setitem_valid[of t k v]
  by (auto simp: find_trie_def valid_key_def)


lemma units_inj: "type_of a = type_of b \<Longrightarrow> units a = units b \<Longrightarrow> a = b"
proof (cases a; cases b)
  fix x y assume "a = Str x" "b = Str y" "units a = units b"
  moreover have "inj (\<lambda>c. Str [c] :: 'a key)" by (simp add: inj_def)
  ultimately show "a = b" by simp
next
  fix x y assume "a = Tuple x" "b = Tuple y" "units a = units b"
  moreover have "inj (\<lambda>e. Tuple [e] :: 'a key)" by (simp add: inj_def)
  ultimately show "a = b" by simp
qed simp_all

lemma key_add_same:
  "type_of a = type_of b \<Longrightarrow>
     \<exists>c. key_add a b = Inr c \<and> type_of c = type_of a \<and> units c = units a @ units b"
  by (cases a; cases b) auto

lemma walk_Cons_iff:
  assumes "distinct (map fst (children t))"
  shows "walk t (k # us) = Inr n \<longleftrightarrow> (\<exists>c. (k, c) \<in> set (children t) \<and> walk c us = Inr n)"
proof (cases "map_of (children t) k")
  case None
  then have "(k, c) \<notin> set (children t)" for c
    by (force simp: map_of_eq_None_iff)
  then show ?thesis using None by simp
next
  case (Some a)
  then have "(k, c) \<in> set (children t) \<longleftrightarrow> c = a" for c
    using map_of_eq_Some_iff[OF assms, of k c] Some by auto
  then show ?thesis using Some by simp
qed

lemma in_entries_from:
  "(k', v) \<in> entries_from pre kt t \<longleftrightarrow>
     type_of k' = kt \<and> (\<exists>us n. units k' = pre @ us \<and> walk t us = Inr n \<and> val n = Some v)"
  by (simp add: entries_from_def)

lemma entries_fromI:
  "type_of k' = kt \<Longrightarrow> units k' = pre @ us \<Longrightarrow> walk t us = Inr n \<Longrightarrow> val n = Some v \<Longrightarrow>
     (k', v) \<in> entries_from pre kt t"
  unfolding in_entries_from by (intro conjI exI) assumption+

lemma entries_from_node:
  fixes ch :: "('e key \<times> ('e, 'v) trie) list"
  assumes "distinct (map fst ch)"
  shows "entries_from pre kt (Trie vl kt' ch) =
      {(k', v). type_of k' = kt \<and> units k' = pre \<and> vl = Some v} \<union>
      (\<Union>p \<in> set ch. entries_from (pre @ [fst p]) kt (snd p))" (is "?L = ?A \<union> ?B")
proof (rule set_eqI)
  fix x :: "'e key \<times> 'v"
  obtain k' v where x: "x = (k', v)" by (cases x)
  have d: "distinct (map fst (children (Trie vl kt' ch)))" using assms by simp
  show "x \<in> ?L \<longleftrightarrow> x \<in> ?A \<union> ?B"
  proof
    assume "x \<in> ?L"
    then have "(k', v) \<in> entries_from pre kt (Trie vl kt' ch)" by (simp only: x)
    then obtain us n where h: "type_of k' = kt" "units k' = pre @ us"
      "walk (Trie vl kt' ch) us = Inr n" "val n = Some v"
      unfolding in_entries_from by (elim conjE exE)
    show "x \<in> ?A \<union> ?B"
    proof (cases us)
      case Nil
      then have "n = Trie vl kt' ch" using h(3) by simp
      then have "x \<in> ?A" using h Nil by (simp add: x)
      then show ?thesis by (rule UnI1)
    next
      case (Cons k us')
      then obtain c where c: "(k, c) \<in> set ch" "walk c us' = Inr n"
        using h(3) walk_Cons_iff[OF d, of k us' n] by auto
      have "units k' = (pre @ [k]) @ us'" using h(2) Cons by simp
      then have "(k', v) \<in> entries_from (pre @ [fst (k, c)]) kt (snd (k, c))"
        using h(1,4) c(2) by (simp add: entries_fromI)
      then have "x \<in> ?B" using c(1) unfolding x by (rule UN_I[rotated])
      then show ?thesis by (rule UnI2)
    qed
  next
    assume "x \<in> ?A \<union> ?B"
    then show "x \<in> ?L"
    proof (rule UnE)
      assume "x \<in> ?A"
      then have a: "type_of k' = kt" "units k' = pre @ []" "vl = Some v"
        by (simp_all add: x)
      have "(k', v) \<in> entries_from pre kt (Trie vl kt' ch)"
        by (rule entries_fromI[OF a(1) a(2), of _ "Trie vl kt' ch"]) (simp_all add: a(3))
      then show ?thesis by (simp only: x)
    next
      assume "x \<in> ?B"
      then obtain p where p: "p \<in> set ch" "x \<in> entries_from (pre @ [fst p]) kt (snd p)"
        by (rule UN_E)
      from p(2) have "(k', v) \<in> entries_from (pre @ [fst p]) kt (snd p)" by (simp only: x)
      then obtain us n where h: "type_of k' = kt" "units k' = (pre @ [fst p]) @ us"
        "walk (snd p) us = Inr n" "val n = Some v"
        unfolding in_entries_from by (elim conjE exE)
      have "(fst p, snd p) \<in> set ch" using p(1) by simp
      then have w: "walk (Trie vl kt' ch) (fst p # us) = Inr n"
        using walk_Cons_iff[OF d, of "fst p" us n] h(3) by auto
      have u: "units k' = pre @ (fst p # us)" using h(2) by simp
      have "(k', v) \<in> entries_from pre kt (Trie vl kt' ch)"
        by (rule entries_fromI[OF h(1) u w h(4)])
      then show ?thesis by (simp only: x)
    qed
  qed
qed

lemma generator_entries:
  fixes t :: "('e, 'v) trie" and ch :: "('e key \<times> ('e, 'v) trie) list"
  shows "well_formed t \<Longrightarrow> type_of key = key_type t \<Longrightarrow>
     \<exists>xs. recursive_generator key t = Inr xs \<and> set xs = entries_from (units key) (key_type t) t"
  and
  "distinct (map fst ch) \<Longrightarrow>
   \<forall>p \<in> set ch. unit_key (type_of key) (fst p) \<and> key_type (snd p) = type_of key \<and> well_formed (snd p) \<Longrightarrow>
     \<exists>ys. generate_children key ch = Inr ys \<and>
          set ys = (\<Union>p \<in> set ch. entries_from (units key @ [fst p]) (type_of key) (snd p))"
proof (induction key t and key ch rule: recursive_generator_generate_children.induct)
  case (1 key vl kt ch)
  have wf: "distinct (map fst ch)"
    "\<forall>p \<in> set ch. unit_key (type_of key) (fst p) \<and> key_type (snd p) = type_of key \<and> well_formed (snd p)"
    using "1.prems" by (simp_all add: well_formed.simps)
  from "1.IH"[OF wf] obtain ys where ys: "generate_children key ch = Inr ys"
    "set ys = (\<Union>p \<in> set ch. entries_from (units key @ [fst p]) (type_of key) (snd p))"
    by blast
  have kt: "kt = type_of key" using "1.prems" by simp
  have own: "set (case vl of None \<Rightarrow> [] | Some v \<Rightarrow> [(key, v)]) =
      {(k', v). type_of k' = kt \<and> units k' = units key \<and> vl = Some v}"
    using kt by (auto split: option.splits dest: units_inj)
  show ?case
    using ys own kt entries_from_node[OF wf(1), of "units key" kt vl kt] by simp
next
  case (2 key)
  then show ?case by simp
next
  case (3 key k t kts)
  have k: "unit_key (type_of key) k" "key_type t = type_of key" "well_formed t"
    using "3.prems" by simp_all
  then have "type_of key = type_of k" by (simp add: unit_key_def)
  from key_add_same[OF this] obtain key' where key': "key_add key k = Inr key'"
    "type_of key' = type_of key" "units key' = units key @ units k" by blast
  have uk: "units k = [k]" using k(1) by (rule unit_key_units)
  from "3.IH"(1)[OF key'(1) k(3)] key'(2) k(2)
  obtain xs where xs: "recursive_generator key' t = Inr xs"
    "set xs = entries_from (units key') (key_type t) t" by auto
  have "distinct (map fst kts)"
    "\<forall>p \<in> set kts. unit_key (type_of key) (fst p) \<and> key_type (snd p) = type_of key \<and> well_formed (snd p)"
    using "3.prems" by simp_all
  from "3.IH"(2)[OF key'(1) xs(1) this]
  obtain ys where ys: "generate_children key kts = Inr ys"
    "set ys = (\<Union>p \<in> set kts. entries_from (units key @ [fst p]) (type_of key) (snd p))" by blast
  show ?case
    using key' xs ys uk k(2) by simp
qed


lemma new_trie_well_formed: "well_formed (new_trie kt)"
  by (simp add: new_trie_def well_formed.simps)

lemma walk_error: "walk t ks = Inl e \<Longrightarrow> e = KeyError"
  by (induction t ks rule: walk.induct) (auto split: option.splits)

lemma setitem_result:
  assumes "well_formed t" "valid_key t k" "key_len k \<noteq> 0"
  shows "fst (setitem t k v) = None"
    and "\<exists>n. find_trie (snd (setitem t k v)) k = Inr n \<and> val n = v"
    and "well_formed (snd (setitem t k v))"
    and "key_type (snd (setitem t k v)) = key_type t"
proof -
  show ok: "fst (setitem t k v) = None" using assms by (rule setitem_succeeds)
  then have "setitem t k v = (None, snd (setitem t k v))" by (simp add: prod_eq_iff)
  then show "\<exists>n. find_trie (snd (setitem t k v)) k = Inr n \<and> val n = v"
    by (rule find_trie_after_set)
  show "well_formed (snd (setitem t k v))" using assms(1) by (rule setitem_well_formed)
  show "key_type (snd (setitem t k v)) = key_type t" by (rule setitem_type)
qed

lemma iter_entries:
  assumes "well_formed t"
  shows "\<exists>xs. iter t = Inr xs \<and> set xs = entries_from [] (key_type t) t"
proof (cases "key_type t")
  case KStr
  then show ?thesis
    using generator_entries(1)[OF assms, of "Str []"] by (simp add: iter_def)
next
  case KTuple
  then show ?thesis
    using generator_entries(1)[OF assms, of "Tuple []"] by (simp add: iter_def)
qed

section \<open>Claims about the trie operations\<close>

text \<open>
  Claim C7 (kind enforcement). On a trie of one kind, \<^verbatim>\<open>set\<close>, \<^verbatim>\<open>get\<close>, \<^verbatim>\<open>delete\<close> and
  \<^verbatim>\<open>contains\<close> with a key of the other kind (a tuple key on a string trie, a string key
  on a tuple trie) raise \<^verbatim>\<open>TypeError\<close>, and \<^verbatim>\<open>set\<close> and \<^verbatim>\<open>delete\<close> leave the trie as it
  was. With a key of the trie's kind \<^verbatim>\<open>contains\<close> never raises, and it returns
  \<^verbatim>\<open>False\<close> when the key's path is missing.
\<close>

theorem kind_enforcement:
  "(type_of key \<noteq> key_type t \<longrightarrow>
      setitem t key v = (Some TypeError, t) \<and> getitem t key = Inl TypeError \<and>
      delitem t key = (Some TypeError, t) \<and> contains t key = Inl TypeError) \<and>
   (type_of key = key_type t \<longrightarrow>
      (\<exists>b. contains t key = Inr b) \<and>
      ((\<forall>n. find_trie t key \<noteq> Inr n) \<longrightarrow> contains t key = Inr False))"
  using walk_error[of t "units key"]
  by (subst setitem.simps)
    (auto simp: getitem_def delitem_def contains_def find_trie_def valid_key_def
      split: sum.splits error.splits)

theorem kind_enforcement_witness:
  "type_of (Tuple [''i'', ''like''] :: string key) \<noteq> key_type (new_trie KStr :: (string, int) trie) \<and>
   setitem (new_trie KStr :: (string, int) trie) (Tuple [''i'', ''like'']) (Some 1)
     = (Some TypeError, new_trie KStr) \<and>
   getitem (new_trie KStr :: (string, int) trie) (Tuple [''i'', ''like'']) = Inl TypeError \<and>
   delitem (new_trie KStr :: (string, int) trie) (Tuple [''i'', ''like''])
     = (Some TypeError, new_trie KStr) \<and>
   contains (new_trie KStr :: (string, int) trie) (Tuple [''i'', ''like'']) = Inl TypeError \<and>
   type_of (Str ''bat'' :: string key) \<noteq> key_type (new_trie KTuple :: (string, int) trie) \<and>
   setitem (new_trie KTuple :: (string, int) trie) (Str ''bat'') (Some 1)
     = (Some TypeError, new_trie KTuple) \<and>
   getitem (new_trie KTuple :: (string, int) trie) (Str ''bat'') = Inl TypeError \<and>
   delitem (new_trie KTuple :: (string, int) trie) (Str ''bat'')
     = (Some TypeError, new_trie KTuple) \<and>
   contains (new_trie KTuple :: (string, int) trie) (Str ''bat'') = Inl TypeError \<and>
   type_of (Str ''bank'' :: string key) = key_type (new_trie KStr :: (string, int) trie) \<and>
   (\<forall>n. find_trie (new_trie KStr :: (string, int) trie) (Str ''bank'') \<noteq> Inr n) \<and>
   contains (new_trie KStr :: (string, int) trie) (Str ''bank'') = Inr False"
  using kind_enforcement[of "Tuple [''i'', ''like'']" "new_trie KStr :: (string, int) trie" "Some 1"]
    kind_enforcement[of "Str ''bat''" "new_trie KTuple :: (string, int) trie" "Some 1"]
    kind_enforcement[of "Str ''bank''" "new_trie KStr :: (string, int) trie"]
  by (simp add: new_trie_def find_trie_def valid_key_def)

text \<open>
  Claim C1 (round trip), as amended. On a well-formed trie, for every non-empty key
  \<open>k\<close> of the trie's kind and every value \<open>v\<close>, \<^verbatim>\<open>set(k, v)\<close> succeeds, and then
  \<^verbatim>\<open>get(k)\<close> returns \<open>v\<close> and \<^verbatim>\<open>contains(k)\<close> returns \<^verbatim>\<open>True\<close> exactly when \<open>v\<close> is not
  \<^verbatim>\<open>None\<close>.
\<close>

theorem set_then_get_contains:
  "well_formed t \<Longrightarrow> valid_key t k \<Longrightarrow> key_len k \<noteq> 0 \<Longrightarrow>
     fst (setitem t k v) = None \<and>
     getitem (snd (setitem t k v)) k = Inr v \<and>
     contains (snd (setitem t k v)) k = Inr (v \<noteq> None)"
  using setitem_result(1,2)[of t k v]
  by (auto simp: getitem_def contains_def)

theorem set_then_get_contains_witness:
  "well_formed (new_trie KStr :: (string, int) trie) \<and>
   valid_key (new_trie KStr :: (string, int) trie) (Str ''bat'') \<and>
   key_len (Str ''bat'' :: string key) \<noteq> 0 \<and>
   fst (setitem (new_trie KStr :: (string, int) trie) (Str ''bat'') (Some 1)) = None \<and>
   getitem (snd (setitem (new_trie KStr :: (string, int) trie) (Str ''bat'') (Some 1))) (Str ''bat'')
     = Inr (Some 1) \<and>
   contains (snd (setitem (new_trie KStr :: (string, int) trie) (Str ''bat'') (Some 1))) (Str ''bat'')
     = Inr True"
proof -
  have wf: "well_formed (new_trie KStr :: (string, int) trie)"
    by (rule new_trie_well_formed)
  have vk: "valid_key (new_trie KStr :: (string, int) trie) (Str ''bat'')"
    by (simp add: valid_key_def new_trie_def)
  have len: "key_len (Str ''bat'' :: string key) \<noteq> 0" by simp
  from set_then_get_contains[OF wf vk len, of "Some 1"] show ?thesis
    using wf vk by simp
qed

theorem set_none_not_contained_counterexample:
  "fst (setitem (new_trie KStr :: (string, int) trie) (Str ''bat'') None) = None \<and>
   contains (snd (setitem (new_trie KStr :: (string, int) trie) (Str ''bat'') None)) (Str ''bat'')
     = Inr False"
  by code_simp

text \<open>
  Claim C8 (the only failure of \<^verbatim>\<open>set\<close> is a kind mismatch). The code at the empty key
  of the right kind: \<^verbatim>\<open>t = Trie(str); t[''] = 1\<close> raises \<^verbatim>\<open>IndexError\<close> from \<^verbatim>\<open>key[0]\<close>,
  which is no kind mismatch. The trie is left as it was (see \<open>setitem_atomic\<close> and
  \<open>setitem_errors\<close> for every trie and key).
\<close>

theorem set_empty_key_index_error:
  "setitem (new_trie KStr :: (string, int) trie) (Str '''') (Some 1)
     = (Some IndexError, new_trie KStr)"
  by (simp add: setitem.simps new_trie_def valid_key_def)

text \<open>
  Claim C2 (deletion). The code at \<^verbatim>\<open>t = Trie(str); t['bat'] = 1; del t['bat']; t['bat']\<close>:
  both \<^verbatim>\<open>set\<close> and \<^verbatim>\<open>delete\<close> succeed, and \<^verbatim>\<open>get\<close> then returns \<^verbatim>\<open>None\<close> where the claim
  and the docstring of \<^verbatim>\<open>__getitem__\<close> have a \<^verbatim>\<open>KeyError\<close>.
\<close>

theorem get_after_delete_returns_none:
  "fst (setitem (new_trie KStr :: (string, int) trie) (Str ''bat'') (Some 1)) = None \<and>
   fst (delitem (snd (setitem (new_trie KStr :: (string, int) trie) (Str ''bat'') (Some 1)))
          (Str ''bat'')) = None \<and>
   getitem (snd (delitem (snd (setitem (new_trie KStr :: (string, int) trie) (Str ''bat'') (Some 1)))
          (Str ''bat''))) (Str ''bat'') = Inr None"
  by code_simp

text \<open>
  Claim C9 (\<^verbatim>\<open>None\<close> is the absent value). On a well-formed trie, for every non-empty
  key \<open>k\<close> of the trie's kind, \<^verbatim>\<open>set(k, None)\<close> succeeds and creates the path of \<open>k\<close>;
  afterwards \<^verbatim>\<open>contains(k)\<close> returns \<^verbatim>\<open>False\<close>, \<^verbatim>\<open>get(k)\<close> returns \<^verbatim>\<open>None\<close> without
  raising, \<^verbatim>\<open>delete(k)\<close> raises \<^verbatim>\<open>KeyError\<close> and leaves the trie as it is, and the
  iteration returns and does not yield \<open>k\<close>.
\<close>

theorem none_value_is_absent:
  "well_formed t \<Longrightarrow> valid_key t k \<Longrightarrow> key_len k \<noteq> 0 \<Longrightarrow>
     fst (setitem t k None) = None \<and>
     (\<exists>n. find_trie (snd (setitem t k None)) k = Inr n) \<and>
     contains (snd (setitem t k None)) k = Inr False \<and>
     getitem (snd (setitem t k None)) k = Inr None \<and>
     delitem (snd (setitem t k None)) k = (Some KeyError, snd (setitem t k None)) \<and>
     (\<exists>xs. iter (snd (setitem t k None)) = Inr xs \<and> k \<notin> fst ` set xs)"
proof -
  assume a: "well_formed t" "valid_key t k" "key_len k \<noteq> 0"
  define t' where "t' = snd (setitem t k None)"
  note r = setitem_result[OF a, of None, folded t'_def]
  from r(2) obtain n where n: "find_trie t' k = Inr n" "val n = None" by blast
  then have w: "walk t' (units k) = Inr n"
    by (simp add: find_trie_def split: if_splits)
  from iter_entries[OF r(3)] obtain xs where xs: "iter t' = Inr xs"
    "set xs = entries_from [] (key_type t') t'" by blast
  have "k \<notin> fst ` set xs"
  proof
    assume "k \<in> fst ` set xs"
    then obtain v where "(k, v) \<in> set xs" by auto
    then have "\<exists>n'. walk t' (units k) = Inr n' \<and> val n' = Some v"
      unfolding xs(2) in_entries_from by simp
    with w n(2) show False by simp
  qed
  with xs(1) n r(1) show ?thesis
    unfolding t'_def[symmetric] by (simp add: contains_def getitem_def delitem_def)
qed

theorem none_value_is_absent_witness:
  "well_formed (new_trie KStr :: (string, int) trie) \<and>
   valid_key (new_trie KStr :: (string, int) trie) (Str ''bat'') \<and>
   key_len (Str ''bat'' :: string key) \<noteq> 0 \<and>
   contains (snd (setitem (new_trie KStr :: (string, int) trie) (Str ''bat'') None)) (Str ''bat'')
     = Inr False \<and>
   getitem (snd (setitem (new_trie KStr :: (string, int) trie) (Str ''bat'') None)) (Str ''bat'')
     = Inr None \<and>
   fst (delitem (snd (setitem (new_trie KStr :: (string, int) trie) (Str ''bat'') None)) (Str ''bat''))
     = Some KeyError \<and>
   iter (snd (setitem (new_trie KStr :: (string, int) trie) (Str ''bat'') None)) = Inr []"
proof -
  have "iter (snd (setitem (new_trie KStr :: (string, int) trie) (Str ''bat'') None)) = Inr []"
    by code_simp
  moreover have wf: "well_formed (new_trie KStr :: (string, int) trie)"
    by (rule new_trie_well_formed)
  moreover have vk: "valid_key (new_trie KStr :: (string, int) trie) (Str ''bat'')"
    by (simp add: valid_key_def new_trie_def)
  moreover have len: "key_len (Str ''bat'' :: string key) \<noteq> 0" by simp
  moreover note none_value_is_absent[OF wf vk len]
  ultimately show ?thesis by simp
qed

end
